theory Spec2Isabelle
  imports Main "HOL-Library.Word"
begin

section \<open>JavaScript values used by the stream buffer\<close>

text \<open>
  \<^verbatim>\<open>StreamBuffer\<close> is a writable stream that keeps the chunks written to it, within a
  window, and serves byte ranges of them to readers that may have to wait for bytes not
  yet written. The functions below follow \<^verbatim>\<open>src/StreamBuffer.js\<close> statement by
  statement, with the object passed in and returned.

  Offsets, lengths and sizes are JavaScript numbers. The model keeps the integers and
  the one non-finite value the code tests for, \<^verbatim>\<open>Infinity\<close>; \<^verbatim>\<open>null\<close> is the
  \<open>None\<close> of an option type. Bytes are 8-bit words and a \<^verbatim>\<open>Buffer\<close> is a list
  of them.
\<close>

datatype num = Num int | Infinity

type_synonym byte = "8 word"

type_synonym Buffer = "byte list"

text \<open>Whatever a \<^verbatim>\<open>throw\<close> can carry here: \<^verbatim>\<open>null\<close> or an \<^verbatim>\<open>Error\<close> with its message.\<close>

datatype thrown = Null | Error string

abbreviation OutOfBounds :: thrown where
  "OutOfBounds \<equiv> Error ''chunk-offset out of bounds!''"

abbreviation ChunkEvicted :: thrown where
  "ChunkEvicted \<equiv> Error ''chunk gone!''"

abbreviation BufferCapExceeded :: thrown where
  "BufferCapExceeded \<equiv> Error ''maxBufferSize exceeded!''"

abbreviation StreamDestroyed :: thrown where
  "StreamDestroyed \<equiv> Error ''Stream destroyed!''"

text \<open>\<^verbatim>\<open>a < b\<close> on numbers.\<close>

fun num_less :: "num \<Rightarrow> num \<Rightarrow> bool" where
  "num_less (Num a) (Num b) = (a < b)"
| "num_less (Num a) Infinity = True"
| "num_less Infinity b = False"

text \<open>
  \<^verbatim>\<open>Number.isSafeInteger\<close>: the integers from \<open>-(2\<^sup>5\<^sup>3 - 1)\<close> to \<open>2\<^sup>5\<^sup>3 - 1\<close>. A
  JavaScript number is a double, and a sum or difference of doubles is rounded; it is the
  sum or difference of the integers when the operands and the result are safe integers.
  The arithmetic below is that of the integers, so it is the arithmetic of the code on
  safe integers, and a statement about sums of arbitrary offsets and lengths says so.
\<close>

definition isSafeInteger :: "int \<Rightarrow> bool" where
  "isSafeInteger n = (- (2 ^ 53 - 1) \<le> n \<and> n \<le> 2 ^ 53 - 1)"

text \<open>
  \<^verbatim>\<open>a + b\<close>, where \<^verbatim>\<open>Infinity\<close> absorbs every integer; exact, as the sum of the code
  is on safe integers.
\<close>

fun num_add :: "num \<Rightarrow> num \<Rightarrow> num" where
  "num_add (Num a) (Num b) = Num (a + b)"
| "num_add (Num a) Infinity = Infinity"
| "num_add Infinity b = Infinity"

text \<open>\<^verbatim>\<open>a - b\<close> for an integer \<open>b\<close>.\<close>

fun num_sub :: "num \<Rightarrow> int \<Rightarrow> num" where
  "num_sub (Num a) b = Num (a - b)"
| "num_sub Infinity b = Infinity"

text \<open>
  The coercion that \<^verbatim>\<open>+\<close>, \<^verbatim>\<open>-\<close> and \<^verbatim>\<open><\<close> apply to an operand that may be
  \<^verbatim>\<open>null\<close>: \<^verbatim>\<open>null\<close> counts as 0.
\<close>

fun ToNumber :: "int option \<Rightarrow> int" where
  "ToNumber None = 0"
| "ToNumber (Some n) = n"

text \<open>\<^verbatim>\<open>e === v\<close> for a number \<open>e\<close>: never true of \<^verbatim>\<open>null\<close>.\<close>

fun strict_eq :: "num \<Rightarrow> int option \<Rightarrow> bool" where
  "strict_eq e None = False"
| "strict_eq e (Some v) = (e = Num v)"

text \<open>
  \<^verbatim>\<open>buf.slice(start, end)\<close>: a negative index counts from the end of the buffer, and
  both indices are clamped to the buffer.
\<close>

definition slice :: "'a list \<Rightarrow> int \<Rightarrow> num \<Rightarrow> 'a list" where
  "slice buf startIdx endIdx =
     (let len = int (length buf);
          relStart = (if startIdx < 0 then max (len + startIdx) 0 else min startIdx len);
          relEnd = (case endIdx of
                      Infinity \<Rightarrow> len
                    | Num e \<Rightarrow> if e < 0 then max (len + e) 0 else min e len)
      in take (nat (relEnd - relStart)) (drop (nat relStart) buf))"

text \<open>
  \<^verbatim>\<open>Buffer.concat(list, totalLength)\<close>: the buffers joined, then cut or zero-filled to
  \<open>totalLength\<close> bytes.
\<close>

definition Buffer_concat :: "Buffer list \<Rightarrow> int \<Rightarrow> Buffer" where
  "Buffer_concat list totalLength =
     take (nat totalLength) (concat list @ replicate (nat totalLength) 0)"

section \<open>The store\<close>

text \<open>One entry of \<^verbatim>\<open>_chunks\<close>: \<^verbatim>\<open>{ chunk, end, start }\<close>.\<close>

record entry =
  chunk :: Buffer
  end' :: int
  start :: int

text \<open>The fields of a \<^verbatim>\<open>StreamBuffer\<close>, named as in the class without the underscore.\<close>

record store =
  chunks :: "entry list"
  ended :: bool
  destroyed :: bool
  error :: thrown
  seekv :: "int option"
  maxSize :: num
  maxBufferSize :: num

record options =
  opt_maxSize :: "num option"
  opt_maxBufferSize :: "num option"

text \<open>\<^verbatim>\<open>v || Infinity\<close>: an absent option and 0 are both falsy.\<close>

fun or_Infinity :: "num option \<Rightarrow> num" where
  "or_Infinity None = Infinity"
| "or_Infinity (Some (Num n)) = (if n = 0 then Infinity else Num n)"
| "or_Infinity (Some Infinity) = Infinity"

definition StreamBuffer :: "options \<Rightarrow> store" where
  "StreamBuffer opts =
     \<lparr> chunks = [], ended = False, destroyed = False, error = Null, seekv = Some 0,
       maxSize = or_Infinity (opt_maxSize opts),
       maxBufferSize = or_Infinity (opt_maxBufferSize opts) \<rparr>"

definition getCurrentEndOffset :: "store \<Rightarrow> int" where
  "getCurrentEndOffset s = (if length (chunks s) = 0 then 0 else end' (last (chunks s)))"

definition sizeSB :: "store \<Rightarrow> int" where
  "sizeSB s =
     (if length (chunks s) = 0 then 0 else end' (last (chunks s)) - start (hd (chunks s)))"

definition dropChunk :: "store \<Rightarrow> store" where
  "dropChunk s = s\<lparr>chunks := tl (chunks s)\<rparr>"

text \<open>The eviction loop of \<^verbatim>\<open>_appendChunk\<close>.\<close>

function evict :: "store \<Rightarrow> store" where
  "evict s =
     (if length (chunks s) > 1 \<and> num_less (maxSize s) (Num (sizeSB s))
      then evict (dropChunk s) else s)"
  by pat_completeness auto
termination
  by (relation "measure (\<lambda>s. length (chunks s))") (auto simp: dropChunk_def)

declare evict.simps [simp del]

text \<open>
  The \<^verbatim>\<open>resize\<close> event carries \<^verbatim>\<open>{ size, oldSize }\<close>. \<^verbatim>\<open>emit\<close> calls the listeners
  registered for it one after the other, and what a listener throws leaves \<^verbatim>\<open>emit\<close> as
  an exception. The listeners are code of the user of the class, so the functions that
  emit take them as an argument: what the listeners of the moment do with an event,
  \<open>None\<close> when all of them return and \<open>Some e\<close> when one throws \<open>e\<close>. Listeners are taken
  not to call back into the store.
\<close>

record resize_event =
  size' :: int
  oldSize :: int

type_synonym listeners = "resize_event \<Rightarrow> thrown option"

definition no_listeners :: listeners where
  "no_listeners ev = None"

text \<open>
  \<^verbatim>\<open>_appendChunk\<close>. It tests neither \<^verbatim>\<open>_ended\<close> nor \<^verbatim>\<open>_destroyed\<close> and has no
  \<^verbatim>\<open>throw\<close> of its own; its last statement is the \<^verbatim>\<open>emit\<close>, so an exception of a
  listener leaves it with the chunk already in the ledger. The result is the exception,
  if there is one, and the new store. Waking the waiters is left to the caller of the
  model, who resumes the suspended readers.
\<close>

definition appendChunk :: "listeners \<Rightarrow> Buffer \<Rightarrow> store \<Rightarrow> thrown option \<times> store" where
  "appendChunk emit c s =
     (let oldSz = sizeSB s;
          startOff = getCurrentEndOffset s;
          endOff = startOff + int (length c);
          s = evict (s\<lparr>chunks := chunks s @ [\<lparr>chunk = c, end' = endOff, start = startOff\<rparr>]\<rparr>)
      in (emit \<lparr>size' = sizeSB s, oldSize = oldSz\<rparr>, s))"

text \<open>
  \<^verbatim>\<open>_write\<close>, \<^verbatim>\<open>_destroy\<close> and \<^verbatim>\<open>_final\<close> return the argument they hand to their
  callback together with the new store. \<^verbatim>\<open>_write\<close> catches what \<^verbatim>\<open>_appendChunk\<close>
  throws and hands it to the callback, and hands it \<^verbatim>\<open>null\<close> otherwise.
\<close>

definition writeSB :: "listeners \<Rightarrow> Buffer \<Rightarrow> store \<Rightarrow> thrown \<times> store" where
  "writeSB emit c s =
     (case appendChunk emit c s of
        (Some err, s') \<Rightarrow> (err, s')
      | (None, s') \<Rightarrow> (Null, s'))"

definition destroy :: "thrown \<Rightarrow> store \<Rightarrow> thrown \<times> store" where
  "destroy err s =
     (let err = (if err = Null then StreamDestroyed else err)
      in (err, s\<lparr>destroyed := True, error := err, chunks := []\<rparr>))"

text \<open>
  \<^verbatim>\<open>seek(newSeek)\<close>: the outer \<open>None\<close> is the call without an argument, \<open>Some None\<close>
  is \<^verbatim>\<open>seek(null)\<close>.
\<close>

definition seek :: "num option option \<Rightarrow> store \<Rightarrow> int option \<times> store" where
  "seek arg s =
     (case arg of
        None \<Rightarrow> (seekv s, s)
      | Some newSeek \<Rightarrow>
          (let newSeek = (case newSeek of
                            Some Infinity \<Rightarrow> None
                          | Some (Num n) \<Rightarrow> Some n
                          | None \<Rightarrow> None);
               newSeek = (if newSeek = None \<and> ended s
                          then Some (getCurrentEndOffset s) else newSeek)
           in (newSeek, s\<lparr>seekv := newSeek\<rparr>)))"

definition final :: "store \<Rightarrow> thrown \<times> store" where
  "final s =
     (let s1 = s\<lparr>ended := True\<rparr>;
          cur = fst (seek None s1)
      in (Null, snd (seek (Some (map_option Num cur)) s1)))"

text \<open>
  \<^verbatim>\<open>_getNextChunk(offset, end)\<close>: \<open>Inl\<close> is a throw, \<open>Inr None\<close> the \<^verbatim>\<open>null\<close> that
  tells the caller to wait, \<open>Inr (Some b)\<close> a slice.
\<close>

definition getNextChunk :: "store \<Rightarrow> int option \<Rightarrow> num \<Rightarrow> thrown + Buffer option" where
  "getNextChunk s offset endp =
     (if destroyed s then Inl (error s)
      else case find (\<lambda>c. ToNumber offset < end' c) (chunks s) of
             None \<Rightarrow>
               if ended s then
                 if offset = Some (getCurrentEndOffset s)
                    \<and> (endp = Infinity \<or> strict_eq endp offset)
                 then Inr (Some [])
                 else Inl OutOfBounds
               else Inr None
           | Some c \<Rightarrow>
               if ToNumber offset < start c then Inl ChunkEvicted
               else Inr (Some (slice (chunk c) (ToNumber offset - start c)
                                 (num_sub endp (start c)))))"

section \<open>Bulk reads\<close>

text \<open>
  \<^verbatim>\<open>getBuffer\<close> is an \<^verbatim>\<open>async\<close> function. A call runs until it returns, throws or
  reaches an \<^verbatim>\<open>await\<close>; there it is suspended, and the value of its local variables
  is what it goes on with when the store wakes it. \<open>AwaitOffset\<close> is the
  \<^verbatim>\<open>await\<close> of the first loop, \<open>AwaitChunk\<close> the one of the second.
\<close>

datatype reader =
  AwaitOffset num
| AwaitChunk "int option" "int option" num "Buffer list"

datatype outcome = Suspended reader | Returned Buffer | Threw thrown

text \<open>
  The second loop, from its test \<^verbatim>\<open>currentPos < endPos\<close>. A run that never leaves the
  loop has the value \<open>None\<close>.
\<close>

partial_function (option) getBuffer_loop ::
  "store \<Rightarrow> int option \<Rightarrow> int option \<Rightarrow> num \<Rightarrow> Buffer list \<Rightarrow> outcome option" where
  "getBuffer_loop s offset currentPos endPos bufs =
     (if num_less (Num (ToNumber currentPos)) endPos then
        (case getNextChunk s currentPos endPos of
           Inl err \<Rightarrow> Some (Threw err)
         | Inr None \<Rightarrow> Some (Suspended (AwaitChunk offset currentPos endPos bufs))
         | Inr (Some c) \<Rightarrow>
             (let bufs = bufs @ [c];
                  currentPos = Some (ToNumber currentPos + int (length c))
              in if num_less (maxBufferSize s) (Num (ToNumber currentPos - ToNumber offset))
                 then Some (Threw BufferCapExceeded)
                 else getBuffer_loop s offset currentPos
                        (if ended s \<and> endPos = Infinity
                         then Num (getCurrentEndOffset s) else endPos)
                        bufs))
      else Some (Returned (Buffer_concat bufs (ToNumber currentPos - ToNumber offset))))"

declare getBuffer_loop.simps [code]

text \<open>Lines 168 to 172 and the loop after them: the read proper, once the offset is settled.\<close>

definition getBuffer_read :: "num \<Rightarrow> int option \<Rightarrow> store \<Rightarrow> store \<times> outcome option" where
  "getBuffer_read len offset s =
     (let currentPos = offset;
          endPos = num_add (Num (ToNumber offset)) len;
          s = snd (seek (Some (Some endPos)) s)
      in (s, getBuffer_loop s offset currentPos endPos []))"

text \<open>
  \<^verbatim>\<open>getBuffer(length, offset)\<close>; \<open>None\<close> is an argument left out or \<^verbatim>\<open>null\<close>, which
  the function treats alike.
\<close>

definition getBuffer :: "num option \<Rightarrow> int option \<Rightarrow> store \<Rightarrow> store \<times> outcome option" where
  "getBuffer len offset s =
     (let len = (case len of None \<Rightarrow> Infinity | Some l \<Rightarrow> l);
          offset = (case offset of None \<Rightarrow> fst (seek None s) | Some v \<Rightarrow> Some v)
      in if offset = None \<and> \<not> ended s \<and> \<not> destroyed s
         then (s, Some (Suspended (AwaitOffset len)))
         else getBuffer_read len offset s)"

text \<open>A suspended read goes on from its \<^verbatim>\<open>await\<close> against the store as it is then.\<close>

fun resume :: "reader \<Rightarrow> store \<Rightarrow> store \<times> outcome option" where
  "resume (AwaitOffset len) s =
     (let offset = (if ended s then Some (getCurrentEndOffset s) else None)
      in if offset = None \<and> \<not> ended s \<and> \<not> destroyed s
         then (s, Some (Suspended (AwaitOffset len)))
         else getBuffer_read len offset s)"
| "resume (AwaitChunk offset currentPos endPos bufs) s =
     (s, getBuffer_loop s offset currentPos
           (if ended s \<and> endPos = Infinity then Num (getCurrentEndOffset s) else endPos)
           bufs)"

section \<open>Stream reads\<close>

text \<open>
  What the constructor of \<^verbatim>\<open>StreamBufferReader\<close> stores, and the error a
  \<^verbatim>\<open>destroy\<close> call gave it (\<open>Null\<close> while there was none). \<^verbatim>\<open>getStream\<close>
  builds the reader and returns at once; the reader pulls its bytes later, through
  \<^verbatim>\<open>_getNextChunk\<close>.
\<close>

record StreamBufferReader =
  currentPos :: int
  endPos :: num
  isReading :: bool
  destroyedWith :: thrown

definition new_StreamBufferReader :: "int \<Rightarrow> num \<Rightarrow> StreamBufferReader" where
  "new_StreamBufferReader startPos endp =
     \<lparr> currentPos = startPos, endPos = endp, isReading = False, destroyedWith = Null \<rparr>"

definition getStream :: "num option \<Rightarrow> int option \<Rightarrow> store \<Rightarrow> store \<times> StreamBufferReader" where
  "getStream len offset s =
     (let len = (case len of None \<Rightarrow> Infinity | Some l \<Rightarrow> l);
          offset = (case offset of None \<Rightarrow> fst (seek None s) | Some v \<Rightarrow> Some v)
      in case offset of
           None \<Rightarrow>
             (let anyLoadedPoint = getCurrentEndOffset s;
                  result = new_StreamBufferReader anyLoadedPoint (Num anyLoadedPoint)
              in (s, if len \<noteq> Num 0 \<and> len \<noteq> Infinity
                     then result\<lparr>destroyedWith := Error ''out of bounds''\<rparr>
                     else result))
         | Some off \<Rightarrow>
             (let endp = num_add (Num off) len
              in (snd (seek (Some (Some endp)) s), new_StreamBufferReader off endp)))"

section \<open>Histories of a store and the test fixtures\<close>

text \<open>
  The calls that change a store. A read changes nothing but the seek, which \<open>Seek\<close>
  covers, and the store a write leaves does not depend on the listeners, so a history
  writes without any. \<open>run\<close> plays a history from left to right.
\<close>

datatype op = Write Buffer | Final | Destroy thrown | Seek "num option"

fun step :: "op \<Rightarrow> store \<Rightarrow> store" where
  "step (Write c) s = snd (writeSB no_listeners c s)"
| "step Final s = snd (final s)"
| "step (Destroy e) s = snd (destroy e s)"
| "step (Seek v) s = snd (seek (Some v) s)"

definition run :: "op list \<Rightarrow> store \<Rightarrow> store" where
  "run ops s = fold step ops s"

fun is_Destroy :: "op \<Rightarrow> bool" where
  "is_Destroy (Destroy e) = True"
| "is_Destroy x = False"

text \<open>The streams the test suite builds: \<^verbatim>\<open>new StreamBuffer()\<close> has no options.\<close>

definition no_options :: options where
  "no_options = \<lparr> opt_maxSize = None, opt_maxBufferSize = None \<rparr>"

definition createOpenTestStream :: "options \<Rightarrow> store" where
  "createOpenTestStream opts =
     run [Write [0xBE, 0xEF, 0xFE, 0xED], Write [0x01, 0x23, 0x45, 0x67],
          Write [0x89, 0xAB, 0xCD, 0xEF], Write [0x11, 0x23, 0x32, 0x11]]
       (StreamBuffer opts)"

definition createTestStream :: "options \<Rightarrow> store" where
  "createTestStream opts = snd (final (createOpenTestStream opts))"

definition createTestStreamWithDroppedChunk :: store where
  "createTestStreamWithDroppedChunk =
     createTestStream \<lparr> opt_maxSize = Some (Num 12), opt_maxBufferSize = None \<rparr>"

text \<open>The test stream with \<^verbatim>\<open>maxBufferSize: 6\<close>, and a stream of two chunks.\<close>

definition cappedTestStream :: store where
  "cappedTestStream =
     createTestStream \<lparr> opt_maxSize = None, opt_maxBufferSize = Some (Num 6) \<rparr>"

definition twoChunkStream :: store where
  "twoChunkStream =
     run [Write [0xBE, 0xEF, 0xFE, 0xED], Write [0x01, 0x23, 0x45, 0x67], Final]
       (StreamBuffer no_options)"

section \<open>The ledger invariant and the bytes of a range\<close>

text \<open>
  A ledger is well formed when every entry spans exactly its bytes and each entry starts
  where the one before it ends. \<open>lowWater\<close> and \<open>highWater\<close> are the offsets of the
  first and one past the last retained byte, both 0 for the empty ledger;
  \<open>byte_range xs a b\<close> is the bytes at the offsets from \<open>a\<close> up to \<open>b\<close>.
\<close>

fun ledger_ok :: "entry list \<Rightarrow> bool" where
  "ledger_ok [] = True"
| "ledger_ok [c] = (end' c = start c + int (length (chunk c)))"
| "ledger_ok (c # d # cs) =
     (end' c = start c + int (length (chunk c)) \<and> start d = end' c \<and> ledger_ok (d # cs))"

definition lowWater :: "entry list \<Rightarrow> int" where
  "lowWater xs = (case xs of [] \<Rightarrow> 0 | x # _ \<Rightarrow> start x)"

definition highWater :: "entry list \<Rightarrow> int" where
  "highWater xs = (if xs = [] then 0 else end' (last xs))"

definition ledger_bytes :: "entry list \<Rightarrow> Buffer" where
  "ledger_bytes xs = concat (map chunk xs)"

definition byte_range :: "entry list \<Rightarrow> int \<Rightarrow> int \<Rightarrow> Buffer" where
  "byte_range xs a b = take (nat (b - a)) (drop (nat (a - lowWater xs)) (ledger_bytes xs))"

text \<open>The smaller of a target end and an offset.\<close>

fun clamp_end :: "num \<Rightarrow> int \<Rightarrow> int" where
  "clamp_end Infinity k = k"
| "clamp_end (Num n) k = min n k"

section \<open>Lemmas\<close>

subsection \<open>The ledger invariant\<close>

lemma ledger_ok_tl: "ledger_ok cs \<Longrightarrow> ledger_ok (tl cs)"
  by (induction cs rule: ledger_ok.induct) auto

lemma ledger_ok_snoc:
  "ledger_ok cs \<Longrightarrow> end' c = start c + int (length (chunk c)) \<Longrightarrow>
   (cs \<noteq> [] \<longrightarrow> start c = end' (last cs)) \<Longrightarrow> ledger_ok (cs @ [c])"
  by (induction cs rule: ledger_ok.induct) auto

lemma ledger_ok_hd:
  "ledger_ok (x # xs) \<Longrightarrow> end' x = start x + int (length (chunk x))"
  by (cases xs) auto

lemma ledger_ok_hd_le_last:
  "ledger_ok (x # xs) \<Longrightarrow> end' x \<le> end' (last (x # xs))"
proof (induction xs arbitrary: x)
  case Nil
  then show ?case by simp
next
  case (Cons y ys)
  from Cons.prems have ok: "ledger_ok (y # ys)" and xy: "start y = end' x"
    by auto
  have "end' y \<le> end' (last (y # ys))"
    using Cons.IH ok by blast
  moreover have "end' x \<le> end' y"
    using ledger_ok_hd [OF ok] xy by simp
  ultimately have "end' x \<le> end' (last (y # ys))"
    by simp
  then show ?case by simp
qed

lemma ledger_ok_end_le:
  "ledger_ok xs \<Longrightarrow> x \<in> set xs \<Longrightarrow> end' x \<le> end' (last xs)"
proof (induction xs)
  case Nil
  then show ?case by simp
next
  case (Cons y ys)
  show ?case
  proof (cases "x = y")
    case True
    with Cons.prems ledger_ok_hd_le_last show ?thesis by blast
  next
    case False
    with Cons.prems have "x \<in> set ys" and "ys \<noteq> []" by auto
    moreover from Cons.prems have "ledger_ok ys" using ledger_ok_tl [of "y # ys"] by simp
    ultimately show ?thesis using Cons.IH by simp
  qed
qed

lemma ledger_ok_start_le_end:
  "ledger_ok xs \<Longrightarrow> x \<in> set xs \<Longrightarrow> start x \<le> end' x"
  by (induction xs rule: ledger_ok.induct) auto

subsection \<open>Eviction and append\<close>

text \<open>Each fact about the eviction loop follows its recursion.\<close>

lemma evict_chunks_nonempty: "chunks s \<noteq> [] \<Longrightarrow> chunks (evict s) \<noteq> []"
proof (induction s rule: evict.induct)
  case (1 s)
  show ?case
  proof (cases "length (chunks s) > 1 \<and> num_less (maxSize s) (Num (sizeSB s))")
    case True
    then have "chunks (dropChunk s) \<noteq> []"
      by (cases "chunks s") (auto simp: dropChunk_def)
    with 1 True show ?thesis by (subst evict.simps) simp
  next
    case False
    with 1 show ?thesis by (subst evict.simps) auto
  qed
qed

lemma evict_last: "chunks s \<noteq> [] \<Longrightarrow> last (chunks (evict s)) = last (chunks s)"
proof (induction s rule: evict.induct)
  case (1 s)
  show ?case
  proof (cases "length (chunks s) > 1 \<and> num_less (maxSize s) (Num (sizeSB s))")
    case True
    then have ne: "chunks (dropChunk s) \<noteq> []" and l: "last (chunks (dropChunk s)) = last (chunks s)"
      by (cases "chunks s"; auto simp: dropChunk_def)+
    with 1 True show ?thesis by (subst evict.simps) simp
  next
    case False
    then show ?thesis by (subst evict.simps) auto
  qed
qed

lemma evict_exit:
  "length (chunks (evict s)) \<le> 1 \<or> \<not> num_less (maxSize (evict s)) (Num (sizeSB (evict s)))"
proof (induction s rule: evict.induct)
  case (1 s)
  show ?case
  proof (cases "length (chunks s) > 1 \<and> num_less (maxSize s) (Num (sizeSB s))")
    case True
    with 1 show ?thesis by (subst (1 2 3) evict.simps) simp
  next
    case False
    then show ?thesis by (subst (1 2 3) evict.simps) auto
  qed
qed

lemma evict_ledger_ok: "ledger_ok (chunks s) \<Longrightarrow> ledger_ok (chunks (evict s))"
proof (induction s rule: evict.induct)
  case (1 s)
  show ?case
  proof (cases "length (chunks s) > 1 \<and> num_less (maxSize s) (Num (sizeSB s))")
    case True
    have "ledger_ok (chunks (dropChunk s))"
      using "1.prems" by (simp add: dropChunk_def ledger_ok_tl)
    with 1 True show ?thesis by (subst evict.simps) simp
  next
    case False
    with 1 show ?thesis by (subst evict.simps) auto
  qed
qed

lemma evict_fields:
  "ended (evict s) = ended s \<and> destroyed (evict s) = destroyed s \<and> error (evict s) = error s
   \<and> seekv (evict s) = seekv s \<and> maxSize (evict s) = maxSize s
   \<and> maxBufferSize (evict s) = maxBufferSize s"
proof (induction s rule: evict.induct)
  case (1 s)
  show ?case
  proof (cases "length (chunks s) > 1 \<and> num_less (maxSize s) (Num (sizeSB s))")
    case True
    with 1 show ?thesis by (subst (1 2 3 4 5 6) evict.simps) (simp add: dropChunk_def)
  next
    case False
    then show ?thesis by (subst (1 2 3 4 5 6) evict.simps) auto
  qed
qed


lemma appendChunk_store:
  "snd (appendChunk emit c s) = snd (appendChunk emit' c s)"
  by (simp add: appendChunk_def Let_def)

lemma writeSB_store: "snd (writeSB emit c s) = snd (appendChunk emit c s)"
  by (simp add: writeSB_def split: prod.splits option.splits)

lemma appendChunk_fields:
  "ended (snd (appendChunk emit c s)) = ended s \<and> destroyed (snd (appendChunk emit c s)) = destroyed s
   \<and> error (snd (appendChunk emit c s)) = error s \<and> seekv (snd (appendChunk emit c s)) = seekv s
   \<and> maxSize (snd (appendChunk emit c s)) = maxSize s
   \<and> maxBufferSize (snd (appendChunk emit c s)) = maxBufferSize s"
  by (simp add: appendChunk_def Let_def evict_fields)


lemma appendChunk_last:
  "last (chunks (snd (appendChunk emit c s))) =
     \<lparr> chunk = c, end' = getCurrentEndOffset s + int (length c), start = getCurrentEndOffset s \<rparr>"
  by (simp add: appendChunk_def Let_def evict_last)

lemma appendChunk_ledger_ok:
  assumes "ledger_ok (chunks s)"
  shows "ledger_ok (chunks (snd (appendChunk emit c s)))"
proof -
  let ?new = "s\<lparr>chunks := chunks s @ [\<lparr>chunk = c,
                 end' = getCurrentEndOffset s + int (length c), start = getCurrentEndOffset s\<rparr>]\<rparr>"
  have "ledger_ok (chunks ?new)"
    using assms by (simp add: ledger_ok_snoc getCurrentEndOffset_def)
  then have "ledger_ok (chunks (evict ?new))"
    by (rule evict_ledger_ok)
  then show ?thesis
    by (simp add: appendChunk_def Let_def)
qed

subsection \<open>What the calls leave unchanged\<close>

lemma seek_fields:
  "chunks (snd (seek a s)) = chunks s \<and> ended (snd (seek a s)) = ended s
   \<and> destroyed (snd (seek a s)) = destroyed s \<and> error (snd (seek a s)) = error s
   \<and> maxSize (snd (seek a s)) = maxSize s
   \<and> maxBufferSize (snd (seek a s)) = maxBufferSize s"
  by (simp add: seek_def Let_def split: option.splits)

lemma final_fields:
  "chunks (snd (final s)) = chunks s \<and> ended (snd (final s))
   \<and> destroyed (snd (final s)) = destroyed s \<and> error (snd (final s)) = error s
   \<and> maxSize (snd (final s)) = maxSize s
   \<and> maxBufferSize (snd (final s)) = maxBufferSize s"
  by (simp add: final_def Let_def seek_fields)

lemma step_ledger_ok: "ledger_ok (chunks s) \<Longrightarrow> ledger_ok (chunks (step x s))"
  by (cases x) (simp_all add: writeSB_store appendChunk_ledger_ok final_fields destroy_def Let_def seek_fields)

lemma run_ledger_ok: "ledger_ok (chunks s) \<Longrightarrow> ledger_ok (chunks (run ops s))"
  unfolding run_def by (induction ops arbitrary: s) (simp_all add: step_ledger_ok)

text \<open>
  Every store that a history builds from a new one has a well-formed ledger, and reads
  leave the ledger as it is.
\<close>

lemma reachable_ledger_ok: "ledger_ok (chunks (run ops (StreamBuffer opts)))"
  by (rule run_ledger_ok) (simp add: StreamBuffer_def)

lemma reads_keep_ledger:
  "chunks (fst (getBuffer len offset s)) = chunks s
   \<and> chunks (fst (getStream len offset s)) = chunks s
   \<and> chunks (fst (resume r s)) = chunks s"
  by (cases r)
     (auto simp: getBuffer_def getBuffer_read_def getStream_def Let_def seek_fields
       split: option.splits)

lemma step_destroyed:
  "destroyed s \<Longrightarrow> \<not> is_Destroy x \<Longrightarrow>
   destroyed (step x s) \<and> error (step x s) = error s"
  by (cases x) (simp_all add: writeSB_store appendChunk_fields final_fields seek_fields)

lemma run_destroyed:
  "destroyed s \<Longrightarrow> \<forall>x \<in> set ops. \<not> is_Destroy x \<Longrightarrow>
   destroyed (run ops s) \<and> error (run ops s) = error s"
  unfolding run_def
proof (induction ops arbitrary: s)
  case Nil
  then show ?case by simp
next
  case (Cons x xs)
  then have "destroyed (step x s)" and "error (step x s) = error s"
    using step_destroyed [of s x] by auto
  with Cons show ?case by simp
qed

subsection \<open>Locating in a well-formed ledger\<close>

lemma find_None_beyond:
  "ledger_ok xs \<Longrightarrow> xs \<noteq> [] \<Longrightarrow> end' (last xs) \<le> off \<Longrightarrow>
   find (\<lambda>c. off < end' c) xs = None"
  using ledger_ok_end_le [of xs] by (fastforce simp: find_None_iff)

lemma getCurrentEndOffset_highWater: "getCurrentEndOffset s = highWater (chunks s)"
  by (simp add: getCurrentEndOffset_def highWater_def)

lemma ledger_ok_length:
  "ledger_ok xs \<Longrightarrow> int (length (ledger_bytes xs)) = highWater xs - lowWater xs"
  by (induction xs rule: ledger_ok.induct)
     (auto simp: ledger_bytes_def highWater_def lowWater_def)

lemma byte_range_empty: "byte_range xs a a = []"
  by (simp add: byte_range_def)

lemma byte_range_length:
  "ledger_ok xs \<Longrightarrow> lowWater xs \<le> a \<Longrightarrow> a \<le> b \<Longrightarrow> b \<le> highWater xs \<Longrightarrow>
   int (length (byte_range xs a b)) = b - a"
  using ledger_ok_length [of xs] by (simp add: byte_range_def)

lemma byte_range_append:
  "lowWater xs \<le> a \<Longrightarrow> a \<le> b \<Longrightarrow> b \<le> c \<Longrightarrow>
   byte_range xs a b @ byte_range xs b c = byte_range xs a c"
proof -
  assume h: "lowWater xs \<le> a" "a \<le> b" "b \<le> c"
  let ?ys = "drop (nat (a - lowWater xs)) (ledger_bytes xs)"
  have n: "nat (b - lowWater xs) = nat (b - a) + nat (a - lowWater xs)"
    using h by linarith
  have d: "drop (nat (b - lowWater xs)) (ledger_bytes xs) = drop (nat (b - a)) ?ys"
    by (simp add: n)
  have "take (nat (c - a)) ?ys = take (nat (b - a) + nat (c - b)) ?ys"
    using h by (simp add: nat_add_distrib [symmetric])
  also have "\<dots> = take (nat (b - a)) ?ys @ take (nat (c - b)) (drop (nat (b - a)) ?ys)"
    by (simp add: take_add)
  finally show ?thesis
    by (simp add: byte_range_def d)
qed

lemma find_chunk:
  "ledger_ok xs \<Longrightarrow> xs \<noteq> [] \<Longrightarrow> lowWater xs \<le> p \<Longrightarrow> p < highWater xs \<Longrightarrow>
   \<exists>c. find (\<lambda>c. p < end' c) xs = Some c \<and> start c \<le> p \<and> p < end' c
       \<and> end' c \<le> highWater xs
       \<and> end' c = start c + int (length (chunk c))
       \<and> (\<forall>m. p \<le> m \<and> m \<le> end' c \<longrightarrow>
             take (nat (m - p)) (drop (nat (p - start c)) (chunk c)) = byte_range xs p m)"
proof (induction xs)
  case Nil
  then show ?case by simp
next
  case (Cons x xs)
  have hd: "end' x = start x + int (length (chunk x))"
    using Cons.prems(1) by (rule ledger_ok_hd)
  have low: "lowWater (x # xs) = start x"
    by (simp add: lowWater_def)
  show ?case
  proof (cases "p < end' x")
    case True
    have le: "end' x \<le> highWater (x # xs)"
      using ledger_ok_hd_le_last [OF Cons.prems(1)] by (simp add: highWater_def)
    have "take (nat (m - p)) (drop (nat (p - start x)) (chunk x)) = byte_range (x # xs) p m"
      if "p \<le> m \<and> m \<le> end' x" for m
      using that hd Cons.prems(3) low
      by (simp add: byte_range_def ledger_bytes_def; linarith)
    with True le hd Cons.prems(3) low show ?thesis
      by simp
  next
    case False
    then have ne: "xs \<noteq> []"
      using Cons.prems(4) by (auto simp: highWater_def)
    then obtain y ys where ys: "xs = y # ys"
      by (cases xs) auto
    have ok: "ledger_ok xs" and st: "start y = end' x"
      using Cons.prems(1) ys by auto
    have low': "lowWater xs = end' x"
      using ys st by (simp add: lowWater_def)
    have hi: "highWater (x # xs) = highWater xs"
      using ne by (simp add: highWater_def)
    have "\<exists>c. find (\<lambda>c. p < end' c) xs = Some c \<and> start c \<le> p \<and> p < end' c
       \<and> end' c \<le> highWater xs
       \<and> end' c = start c + int (length (chunk c))
       \<and> (\<forall>m. p \<le> m \<and> m \<le> end' c \<longrightarrow>
             take (nat (m - p)) (drop (nat (p - start c)) (chunk c)) = byte_range xs p m)"
      using Cons.IH [OF ok ne] low' False Cons.prems(4) hi by simp
    then obtain c where c: "find (\<lambda>c. p < end' c) xs = Some c" "start c \<le> p" "p < end' c"
      "end' c \<le> highWater xs" "end' c = start c + int (length (chunk c))"
      "\<forall>m. p \<le> m \<and> m \<le> end' c \<longrightarrow>
             take (nat (m - p)) (drop (nat (p - start c)) (chunk c)) = byte_range xs p m"
      by blast
    have n: "nat (p - start x) = length (chunk x) + nat (p - end' x)"
      using hd False by linarith
    have br: "byte_range (x # xs) p m = byte_range xs p m" for m
      by (simp add: byte_range_def ledger_bytes_def low low' n)
    from c False hi br show ?thesis
      by simp
  qed
qed

subsection \<open>The read loop\<close>

text \<open>
  Where the ledger holds the byte at the position of the read, a locate returns the bytes
  from there up to the end of their chunk or the requested end, and at least one. The loop
  is then followed by induction on the bytes still to read: it returns the range when the
  cap allows the whole of it, and throws when the bytes at hand pass the cap.
\<close>

lemma num_less_mono: "\<not> num_less cap (Num a) \<Longrightarrow> b \<le> a \<Longrightarrow> \<not> num_less cap (Num b)"
  by (cases cap) auto

lemma Buffer_concat_exact:
  "int (length (concat bufs)) = n \<Longrightarrow> Buffer_concat bufs n = concat bufs"
  by (auto simp: Buffer_concat_def)

lemma locate_available:
  assumes "\<not> destroyed s" and "ledger_ok (chunks s)"
    and "lowWater (chunks s) \<le> p" and "p < highWater (chunks s)"
    and "num_less (Num p) e"
  shows "\<exists>m. getNextChunk s (Some p) e = Inr (Some (byte_range (chunks s) p m))
           \<and> p < m \<and> m \<le> clamp_end e (highWater (chunks s))
           \<and> int (length (byte_range (chunks s) p m)) = m - p"
proof -
  have ne: "chunks s \<noteq> []"
    using assms(3,4) by (auto simp: highWater_def lowWater_def)
  obtain c where c: "find (\<lambda>c. p < end' c) (chunks s) = Some c" "start c \<le> p" "p < end' c"
      "end' c \<le> highWater (chunks s)" "end' c = start c + int (length (chunk c))"
      "\<forall>m. p \<le> m \<and> m \<le> end' c \<longrightarrow>
             take (nat (m - p)) (drop (nat (p - start c)) (chunk c)) = byte_range (chunks s) p m"
    using find_chunk [OF assms(2) ne assms(3,4)] by blast
  let ?m = "clamp_end e (end' c)"
  have pm: "p < ?m" and me: "?m \<le> end' c"
    using assms(5) c(3) by (cases e; simp)+
  have sl: "slice (chunk c) (p - start c) (num_sub e (start c))
              = take (nat (?m - p)) (drop (nat (p - start c)) (chunk c))"
    using c(2,3,5) assms(5) by (cases e) (auto simp: slice_def Let_def min_def)
  have "getNextChunk s (Some p) e = Inr (Some (byte_range (chunks s) p ?m))"
    using assms(1) c(1,2) sl c(6) pm me by (simp add: getNextChunk_def)
  moreover have "?m \<le> clamp_end e (highWater (chunks s))"
    using c(4) by (cases e) auto
  moreover have "int (length (byte_range (chunks s) p ?m)) = ?m - p"
    using byte_range_length [OF assms(2,3), of ?m] pm me c(4) by simp
  ultimately show ?thesis
    using pm by blast
qed

lemma loop_done:
  "\<not> num_less (Num cp) e \<Longrightarrow>
   getBuffer_loop s (Some off) (Some cp) e bufs = Some (Returned (Buffer_concat bufs (cp - off)))"
  by (subst getBuffer_loop.simps) simp

lemma loop_step:
  "num_less (Num cp) e \<Longrightarrow> getNextChunk s (Some cp) e = Inr (Some c) \<Longrightarrow>
   \<not> num_less (maxBufferSize s) (Num (cp + int (length c) - off)) \<Longrightarrow>
   getBuffer_loop s (Some off) (Some cp) e bufs =
     getBuffer_loop s (Some off) (Some (cp + int (length c)))
       (if ended s \<and> e = Infinity then Num (getCurrentEndOffset s) else e) (bufs @ [c])"
  by (subst getBuffer_loop.simps) (simp add: Let_def)


lemma loop_returns:
  assumes "\<not> destroyed s" and "ledger_ok (chunks s)"
    and "lowWater (chunks s) \<le> cp" and "cp \<le> e" and "e \<le> highWater (chunks s)"
    and "\<not> num_less (maxBufferSize s) (Num (e - off))"
    and "int (length (concat bufs)) = cp - off"
  shows "getBuffer_loop s (Some off) (Some cp) (Num e) bufs
           = Some (Returned (concat bufs @ byte_range (chunks s) cp e))"
  using assms(3,4,7)
proof (induction "nat (e - cp)" arbitrary: cp bufs rule: less_induct)
  case less
  show ?case
  proof (cases "cp < e")
    case False
    with less.prems have "cp = e" by simp
    then show ?thesis
      using less.prems(3) by (simp add: loop_done Buffer_concat_exact byte_range_empty)
  next
    case True
    then have lt: "num_less (Num cp) (Num e)" by simp
    have "cp < highWater (chunks s)" using True assms(5) by simp
    from locate_available [OF assms(1,2) less.prems(1) this lt]
    obtain m where m: "getNextChunk s (Some cp) (Num e) = Inr (Some (byte_range (chunks s) cp m))"
      "cp < m" "m \<le> clamp_end (Num e) (highWater (chunks s))"
      "int (length (byte_range (chunks s) cp m)) = m - cp"
      by blast
    let ?c = "byte_range (chunks s) cp m"
    have me: "m \<le> e" using m(3) by simp
    have cap: "\<not> num_less (maxBufferSize s) (Num (cp + int (length ?c) - off))"
      using num_less_mono [OF assms(6), of "m - off"] me m(4) by simp
    have "getBuffer_loop s (Some off) (Some cp) (Num e) bufs
            = getBuffer_loop s (Some off) (Some m) (Num e) (bufs @ [?c])"
      using loop_step [OF lt m(1) cap, of bufs] m(4) by simp
    also have "\<dots> = Some (Returned (concat (bufs @ [?c]) @ byte_range (chunks s) m e))"
    proof (rule less.hyps)
      show "nat (e - m) < nat (e - cp)" using m(2) True by linarith
      show "lowWater (chunks s) \<le> m" using less.prems(1) m(2) by simp
      show "m \<le> e" by (rule me)
      show "int (length (concat (bufs @ [?c]))) = m - off"
        using less.prems(3) m(4) by simp
    qed
    also have "concat (bufs @ [?c]) @ byte_range (chunks s) m e
                 = concat bufs @ byte_range (chunks s) cp e"
      using byte_range_append [OF less.prems(1), of m e] m(2) me by simp
    finally show ?thesis .
  qed
qed


lemma loop_returns_unbounded:
  assumes "ended s" and "\<not> destroyed s" and "ledger_ok (chunks s)"
    and "lowWater (chunks s) \<le> cp" and "cp \<le> highWater (chunks s)"
    and "\<not> num_less (maxBufferSize s) (Num (highWater (chunks s) - off))"
    and "int (length (concat bufs)) = cp - off"
  shows "getBuffer_loop s (Some off) (Some cp) Infinity bufs
           = Some (Returned (concat bufs @ byte_range (chunks s) cp (highWater (chunks s))))"
proof (cases "cp < highWater (chunks s)")
  case True
  let ?hi = "highWater (chunks s)"
  have lt: "num_less (Num cp) Infinity" by simp
  from locate_available [OF assms(2,3,4) True lt]
  obtain m where m: "getNextChunk s (Some cp) Infinity = Inr (Some (byte_range (chunks s) cp m))"
      "cp < m" "m \<le> clamp_end Infinity ?hi"
      "int (length (byte_range (chunks s) cp m)) = m - cp"
    by blast
  let ?c = "byte_range (chunks s) cp m"
  have me: "m \<le> ?hi" using m(3) by simp
  have cap: "\<not> num_less (maxBufferSize s) (Num (cp + int (length ?c) - off))"
    using num_less_mono [OF assms(6), of "m - off"] me m(4) by simp
  have "getBuffer_loop s (Some off) (Some cp) Infinity bufs
          = getBuffer_loop s (Some off) (Some m) (Num ?hi) (bufs @ [?c])"
    using loop_step [OF lt m(1) cap, of bufs] m(4) assms(1)
    by (simp add: getCurrentEndOffset_highWater)
  also have "\<dots> = Some (Returned (concat (bufs @ [?c]) @ byte_range (chunks s) m ?hi))"
  proof (rule loop_returns [OF assms(2,3)])
    show "lowWater (chunks s) \<le> m" using assms(4) m(2) by simp
    show "m \<le> ?hi" by (rule me)
    show "?hi \<le> ?hi" by simp
    show "\<not> num_less (maxBufferSize s) (Num (?hi - off))" by (rule assms(6))
    show "int (length (concat (bufs @ [?c]))) = m - off"
      using assms(7) m(4) by simp
  qed
  also have "concat (bufs @ [?c]) @ byte_range (chunks s) m ?hi
               = concat bufs @ byte_range (chunks s) cp ?hi"
    using byte_range_append [OF assms(4), of m ?hi] m(2) me by simp
  finally show ?thesis .
next
  case False
  let ?hi = "highWater (chunks s)"
  from False assms(5) have eq: "cp = ?hi" by simp
  have none: "find (\<lambda>c. cp < end' c) (chunks s) = None"
  proof (cases "chunks s = []")
    case True
    then show ?thesis by simp
  next
    case False
    then show ?thesis
      using assms(3) eq by (simp add: find_None_beyond highWater_def)
  qed
  have loc: "getNextChunk s (Some cp) Infinity = Inr (Some [])"
    using assms(1,2) none eq by (simp add: getNextChunk_def getCurrentEndOffset_highWater)
  have cap: "\<not> num_less (maxBufferSize s) (Num (cp + int (length ([]::Buffer)) - off))"
    using assms(6) eq by simp
  have "getBuffer_loop s (Some off) (Some cp) Infinity bufs
          = getBuffer_loop s (Some off) (Some cp) (Num ?hi) (bufs @ [[]])"
    using loop_step [OF _ loc cap, of bufs] assms(1)
    by (simp add: getCurrentEndOffset_highWater)
  also have "\<dots> = Some (Returned (Buffer_concat (bufs @ [[]]) (cp - off)))"
    using eq by (simp add: loop_done)
  finally show ?thesis
    using assms(7) eq by (simp add: Buffer_concat_exact byte_range_empty)
qed



subsection \<open>Writes without eviction\<close>

lemma run_append: "run (xs @ ys) s = run ys (run xs s)"
  by (simp add: run_def)

lemma sizeSB_water: "sizeSB s = highWater (chunks s) - lowWater (chunks s)"
  by (cases "chunks s") (simp_all add: sizeSB_def highWater_def lowWater_def)

lemma lowWater_snoc:
  "start x = highWater xs \<Longrightarrow> lowWater (xs @ [x]) = (if xs = [] then highWater xs else lowWater xs)"
  by (cases xs) (simp_all add: lowWater_def)

lemma appendChunk_no_evict:
  assumes "\<not> num_less (maxSize s)
             (Num (highWater (chunks s) + int (length c)
                   - (if chunks s = [] then 0 else lowWater (chunks s))))"
  shows "snd (appendChunk emit c s) =
           s\<lparr>chunks := chunks s @ [\<lparr> chunk = c, end' = highWater (chunks s) + int (length c),
                                     start = highWater (chunks s) \<rparr>]\<rparr>"
proof -
  let ?x = "\<lparr> chunk = c, end' = highWater (chunks s) + int (length c), start = highWater (chunks s) \<rparr>"
  let ?s = "s\<lparr>chunks := chunks s @ [?x]\<rparr>"
  have "sizeSB ?s = highWater (chunks s) + int (length c)
                   - (if chunks s = [] then 0 else lowWater (chunks s))"
    by (simp add: sizeSB_water lowWater_snoc) (simp add: highWater_def)
  with assms have "evict ?s = ?s"
    by (subst evict.simps) simp
  then show ?thesis
    by (simp add: appendChunk_def Let_def getCurrentEndOffset_highWater)
qed

lemma run_writes_no_evict:
  assumes "chunks s = []"
    and "\<not> num_less (maxSize s) (Num (int (length (concat cs))))"
  shows "ledger_ok (chunks (run (map Write cs) s))
       \<and> lowWater (chunks (run (map Write cs) s)) = 0
       \<and> highWater (chunks (run (map Write cs) s)) = int (length (concat cs))
       \<and> ledger_bytes (chunks (run (map Write cs) s)) = concat cs
       \<and> ended (run (map Write cs) s) = ended s
       \<and> destroyed (run (map Write cs) s) = destroyed s
       \<and> seekv (run (map Write cs) s) = seekv s
       \<and> maxSize (run (map Write cs) s) = maxSize s
       \<and> maxBufferSize (run (map Write cs) s) = maxBufferSize s"
  using assms(2)
proof (induction cs rule: rev_induct)
  case Nil
  then show ?case
    using assms(1) by (simp add: run_def lowWater_def highWater_def ledger_bytes_def)
next
  case (snoc c cs)
  let ?open = "run (map Write cs) s"
  have "\<not> num_less (maxSize s) (Num (int (length (concat cs))))"
    using num_less_mono [OF snoc.prems, of "int (length (concat cs))"] by simp
  with snoc.IH have ih: "ledger_ok (chunks ?open)" "lowWater (chunks ?open) = 0"
    "highWater (chunks ?open) = int (length (concat cs))" "ledger_bytes (chunks ?open) = concat cs"
    "ended ?open = ended s" "destroyed ?open = destroyed s" "seekv ?open = seekv s"
    "maxSize ?open = maxSize s" "maxBufferSize ?open = maxBufferSize s"
    by simp_all
  have r: "run (map Write cs @ [Write c]) s = snd (appendChunk no_listeners c ?open)"
    by (simp add: run_append) (simp add: run_def writeSB_store)
  have "\<not> num_less (maxSize ?open)
             (Num (highWater (chunks ?open) + int (length c)
                   - (if chunks ?open = [] then 0 else lowWater (chunks ?open))))"
    using snoc.prems ih(2,3,8) by simp
  from appendChunk_no_evict [OF this]
  have a: "snd (appendChunk no_listeners c ?open) =
           ?open\<lparr>chunks := chunks ?open @ [\<lparr> chunk = c, end' = highWater (chunks ?open) + int (length c),
                                     start = highWater (chunks ?open) \<rparr>]\<rparr>" .
  have ok: "ledger_ok (chunks (snd (appendChunk no_listeners c ?open)))"
    using ih(1) by (rule appendChunk_ledger_ok)
  have lw: "lowWater (chunks (snd (appendChunk no_listeners c ?open))) = 0"
    using ih(2) by (simp add: a lowWater_snoc) (simp add: highWater_def)
  have hw: "highWater (chunks (snd (appendChunk no_listeners c ?open))) = int (length (concat (cs @ [c])))"
    using ih(3) by (simp add: a highWater_def)
  have lb: "ledger_bytes (chunks (snd (appendChunk no_listeners c ?open))) = concat (cs @ [c])"
    using ih(4) by (simp add: a ledger_bytes_def)
  have fl: "ended (snd (appendChunk no_listeners c ?open)) = ended s" "destroyed (snd (appendChunk no_listeners c ?open)) = destroyed s"
    "seekv (snd (appendChunk no_listeners c ?open)) = seekv s" "maxSize (snd (appendChunk no_listeners c ?open)) = maxSize s"
    "maxBufferSize (snd (appendChunk no_listeners c ?open)) = maxBufferSize s"
    using ih(5-9) by (simp_all add: a)
  show ?case
    unfolding map_append list.map r using ok lw hw lb fl by blast
qed

subsection \<open>Whole reads\<close>

lemma seek_get: "seek None s = (seekv s, s)"
  by (simp add: seek_def)

lemma final_seekv:
  "seekv (snd (final s)) = (case seekv s of None \<Rightarrow> Some (getCurrentEndOffset s) | Some k \<Rightarrow> Some k)"
  by (simp add: final_def seek_def Let_def getCurrentEndOffset_def split: option.splits)

lemma byte_range_all:
  "ledger_ok xs \<Longrightarrow> byte_range xs (lowWater xs) (highWater xs) = ledger_bytes xs"
  using ledger_ok_length [of xs] by (simp add: byte_range_def)

lemma getBuffer_unbounded_returns:
  assumes "ended s" and "\<not> destroyed s" and "ledger_ok (chunks s)"
    and "seekv s = Some off"
    and "lowWater (chunks s) \<le> off" and "off \<le> highWater (chunks s)"
    and "\<not> num_less (maxBufferSize s) (Num (highWater (chunks s) - off))"
  shows "snd (getBuffer None None s)
           = Some (Returned (byte_range (chunks s) off (highWater (chunks s))))"
proof -
  let ?s' = "snd (seek (Some (Some Infinity)) s)"
  have f: "chunks ?s' = chunks s" "destroyed ?s' = destroyed s" "maxBufferSize ?s' = maxBufferSize s"
    "ended ?s' = ended s"
    using seek_fields [of "Some (Some Infinity)" s] by simp_all
  have "getBuffer_loop ?s' (Some off) (Some off) Infinity []
          = Some (Returned (concat [] @ byte_range (chunks ?s') off (highWater (chunks ?s'))))"
    by (rule loop_returns_unbounded) (use assms f in simp_all)
  then show ?thesis
    using assms(4) by (simp add: getBuffer_def getBuffer_read_def Let_def f seek_get)
qed

lemma seek_finite: "snd (seek (Some (Some (Num k))) s) = s\<lparr>seekv := Some k\<rparr>"
  by (simp add: seek_def Let_def)

lemma seek_seekv:
  "seekv (snd (seek (Some (Some e)) s)) =
     (case e of Num k \<Rightarrow> Some k
              | Infinity \<Rightarrow> if ended s then Some (getCurrentEndOffset s) else None)"
  by (cases e) (simp_all add: seek_def Let_def)

lemma getBuffer_resolved:
  "offset = Some k \<or> offset = None \<and> seekv s = Some k \<Longrightarrow>
   getBuffer len offset s =
     getBuffer_read (case len of None \<Rightarrow> Infinity | Some l \<Rightarrow> l) (Some k) s"
  by (auto simp: getBuffer_def seek_get)

lemma getBuffer_returns:
  assumes "\<not> destroyed s" and "ledger_ok (chunks s)"
    and "offset = Some off \<or> offset = None \<and> seekv s = Some off"
    and "lowWater (chunks s) \<le> off" and "0 \<le> n" and "off + n \<le> highWater (chunks s)"
    and "\<not> num_less (maxBufferSize s) (Num n)"
  shows "getBuffer (Some (Num n)) offset s
           = (s\<lparr>seekv := Some (off + n)\<rparr>, Some (Returned (byte_range (chunks s) off (off + n))))"
proof -
  let ?s' = "s\<lparr>seekv := Some (off + n)\<rparr>"
  have "getBuffer_loop ?s' (Some off) (Some off) (Num (off + n)) []
          = Some (Returned (concat [] @ byte_range (chunks ?s') off (off + n)))"
    by (rule loop_returns) (use assms in simp_all)
  then show ?thesis
    by (simp add: getBuffer_resolved [OF assms(3)] getBuffer_read_def Let_def seek_finite)
qed


lemma locate_evicted:
  assumes "\<not> destroyed s" and "ledger_ok (chunks s)" and "chunks s \<noteq> []"
    and "ToNumber offset < start (hd (chunks s))"
  shows "getNextChunk s offset endp = Inl ChunkEvicted"
proof -
  obtain x xs where xs: "chunks s = x # xs"
    using assms(3) by (cases "chunks s") auto
  with assms(2) have "start x \<le> end' x"
    using ledger_ok_start_le_end [of "x # xs" x] by simp
  with assms xs show ?thesis
    by (simp add: getNextChunk_def)
qed

lemma four_chunks_window_12:
  assumes "length c1 = 4" and "length c2 = 4" and "length c3 = 4" and "length c4 = 4"
  shows "run [Write c1, Write c2, Write c3, Write c4, Final]
           (StreamBuffer \<lparr> opt_maxSize = Some (Num 12), opt_maxBufferSize = cap \<rparr>)
         = \<lparr> chunks = [\<lparr> chunk = c2, end' = 8, start = 4 \<rparr>, \<lparr> chunk = c3, end' = 12, start = 8 \<rparr>,
                       \<lparr> chunk = c4, end' = 16, start = 12 \<rparr>],
             ended = True, destroyed = False, error = Null, seekv = Some 0,
             maxSize = Num 12, maxBufferSize = or_Infinity cap \<rparr>"
  using assms
  by (simp add: run_def StreamBuffer_def writeSB_store appendChunk_def getCurrentEndOffset_def
      evict.simps sizeSB_def dropChunk_def final_def seek_def Let_def)

lemma step_stays_destroyed: "destroyed s \<Longrightarrow> destroyed (step x s)"
  by (cases x) (simp_all add: writeSB_store appendChunk_fields final_fields seek_fields
      destroy_def Let_def)

lemma run_stays_destroyed: "destroyed s \<Longrightarrow> destroyed (run ops s)"
  unfolding run_def by (induction ops arbitrary: s) (simp_all add: step_stays_destroyed)

section \<open>Replaying what was written\<close>

text \<open>
  Claim C1, as amended. Append any chunks to a new store whose retention window is
  unbounded, or at least as long as all of them together, so that nothing is evicted, and
  whose per-read cap is not below their total length; then end the stream. Reading the
  whole range, by \<^verbatim>\<open>getBuffer(totalLength, 0)\<close> or by \<^verbatim>\<open>getBuffer()\<close> from the
  initial seek 0, returns the chunks joined in the order they were appended. On the stream
  of the two chunks BE EF FE ED and 01 23 45 67, \<^verbatim>\<open>getBuffer(2, 1)\<close> returns EF FE and
  \<^verbatim>\<open>getBuffer(8, 0)\<close> returns all eight bytes.
\<close>

theorem C1_replay_concatenation:
  assumes "\<not> num_less (or_Infinity (opt_maxSize opts)) (Num (int (length (concat cs))))"
    and "\<not> num_less (or_Infinity (opt_maxBufferSize opts)) (Num (int (length (concat cs))))"
  shows "snd (getBuffer (Some (Num (int (length (concat cs))))) (Some 0)
                (run (map Write cs @ [Final]) (StreamBuffer opts))) = Some (Returned (concat cs))
       \<and> snd (getBuffer None None (run (map Write cs @ [Final]) (StreamBuffer opts)))
           = Some (Returned (concat cs))
       \<and> snd (getBuffer (Some (Num 2)) (Some 1) twoChunkStream) = Some (Returned [0xEF, 0xFE])
       \<and> snd (getBuffer (Some (Num 8)) (Some 0) twoChunkStream)
           = Some (Returned [0xBE, 0xEF, 0xFE, 0xED, 0x01, 0x23, 0x45, 0x67])"
proof -
  let ?init = "StreamBuffer opts"
  let ?open = "run (map Write cs) ?init"
  let ?s = "run (map Write cs @ [Final]) ?init"
  let ?n = "int (length (concat cs))"
  have s: "?s = snd (final ?open)"
    by (simp add: run_append) (simp add: run_def)
  have "chunks ?init = []" and "\<not> num_less (maxSize ?init) (Num ?n)"
    using assms(1) by (simp_all add: StreamBuffer_def)
  from run_writes_no_evict [OF this]
  have w: "ledger_ok (chunks ?open)" "lowWater (chunks ?open) = 0" "highWater (chunks ?open) = ?n"
    "ledger_bytes (chunks ?open) = concat cs" "destroyed ?open = destroyed ?init"
    "seekv ?open = seekv ?init" "maxBufferSize ?open = maxBufferSize ?init"
    by simp_all
  have init: "seekv ?init = Some 0" "\<not> destroyed ?init"
    "maxBufferSize ?init = or_Infinity (opt_maxBufferSize opts)"
    by (simp_all add: StreamBuffer_def)
  have f: "chunks ?s = chunks ?open" "ended ?s" "\<not> destroyed ?s" "seekv ?s = Some 0"
    "maxBufferSize ?s = or_Infinity (opt_maxBufferSize opts)"
    using final_fields [of ?open] w(5,6,7) final_seekv [of ?open] init
    by (simp_all add: s)
  have all: "byte_range (chunks ?s) 0 ?n = concat cs"
    using byte_range_all [OF w(1)] w(2,3,4) f(1) by simp
  have "getBuffer (Some (Num ?n)) (Some 0) ?s
          = (?s\<lparr>seekv := Some (0 + ?n)\<rparr>, Some (Returned (byte_range (chunks ?s) 0 (0 + ?n))))"
    by (rule getBuffer_returns) (use f w assms(2) in simp_all)
  then have "snd (getBuffer (Some (Num ?n)) (Some 0) ?s)
          = Some (Returned (byte_range (chunks ?s) 0 (0 + ?n)))"
    by simp
  moreover have "snd (getBuffer None None ?s)
          = Some (Returned (byte_range (chunks ?s) 0 (highWater (chunks ?s))))"
    by (rule getBuffer_unbounded_returns) (use f w assms(2) in simp_all)
  moreover have "snd (getBuffer (Some (Num 2)) (Some 1) twoChunkStream)
          = Some (Returned [0xEF, 0xFE])"
    by code_simp
  moreover have "snd (getBuffer (Some (Num 8)) (Some 0) twoChunkStream)
          = Some (Returned [0xBE, 0xEF, 0xFE, 0xED, 0x01, 0x23, 0x45, 0x67])"
    by code_simp
  ultimately show ?thesis
    using all f(1) w(3) by simp
qed

text \<open>The theorem at the test stream, whose 16 bytes fit the default, unbounded cap.\<close>

theorem C1_replay_concatenation_witness:
  "snd (getBuffer (Some (Num 16)) (Some 0) (createTestStream no_options))
      = Some (Returned [0xBE, 0xEF, 0xFE, 0xED, 0x01, 0x23, 0x45, 0x67,
                        0x89, 0xAB, 0xCD, 0xEF, 0x11, 0x23, 0x32, 0x11])
   \<and> snd (getBuffer None None (createTestStream no_options))
      = Some (Returned [0xBE, 0xEF, 0xFE, 0xED, 0x01, 0x23, 0x45, 0x67,
                        0x89, 0xAB, 0xCD, 0xEF, 0x11, 0x23, 0x32, 0x11])"
proof -
  let ?cs = "[[0xBE, 0xEF, 0xFE, 0xED], [0x01, 0x23, 0x45, 0x67],
              [0x89, 0xAB, 0xCD, 0xEF], [0x11, 0x23, 0x32, 0x11 :: byte]]"
  have h1: "\<not> num_less (or_Infinity (opt_maxSize no_options)) (Num (int (length (concat ?cs))))"
    by (simp add: no_options_def)
  have h2: "\<not> num_less (or_Infinity (opt_maxBufferSize no_options))
              (Num (int (length (concat ?cs))))"
    by (simp add: no_options_def)
  have c: "run [Write [0xBE, 0xEF, 0xFE, 0xED], Write [0x01, 0x23, 0x45, 0x67],
                Write [0x89, 0xAB, 0xCD, 0xEF], Write [0x11, 0x23, 0x32, 0x11], Final]
             (StreamBuffer no_options) = createTestStream no_options"
    by (simp add: createTestStream_def createOpenTestStream_def run_def)
  show ?thesis
    using C1_replay_concatenation [OF h1 h2] by (simp add: c)
qed

text \<open>
  The claim itself asks for unbounded retention only. The test stream with
  \<^verbatim>\<open>maxBufferSize: 6\<close> has it and keeps all its 16 bytes, and both reads of the whole
  range fail there.
\<close>

theorem C1_cap_counterexample:
  "maxSize cappedTestStream = Infinity
   \<and> ledger_bytes (chunks cappedTestStream)
       = [0xBE, 0xEF, 0xFE, 0xED, 0x01, 0x23, 0x45, 0x67,
          0x89, 0xAB, 0xCD, 0xEF, 0x11, 0x23, 0x32, 0x11]
   \<and> snd (getBuffer (Some (Num 16)) (Some 0) cappedTestStream) = Some (Threw BufferCapExceeded)
   \<and> snd (getBuffer None None cappedTestStream) = Some (Threw BufferCapExceeded)"
  by code_simp

section \<open>Eviction and size\<close>

text \<open>
  Claim C2, as amended. After every append, either the ledger holds exactly one chunk or
  \<^verbatim>\<open>size()\<close> is at most \<^verbatim>\<open>maxSize\<close>, and the chunk just appended is the last of the
  ledger whatever its length. \<^verbatim>\<open>size()\<close> is the last chunk's end minus the first
  chunk's start, and 0 for the empty ledger. It is 0 for the empty ledger but not only
  for it: on a well-formed ledger \<^verbatim>\<open>size()\<close> is 0 exactly when the ledger holds no
  bytes, which is also so for a ledger of zero-length chunks.
\<close>

theorem C2_append_size_bound:
  "(length (chunks (snd (appendChunk emit c s))) = 1
      \<or> \<not> num_less (maxSize (snd (appendChunk emit c s))) (Num (sizeSB (snd (appendChunk emit c s)))))
   \<and> chunk (last (chunks (snd (appendChunk emit c s)))) = c
   \<and> sizeSB s = (if chunks s = [] then 0 else end' (last (chunks s)) - start (hd (chunks s)))
   \<and> (chunks s = [] \<longrightarrow> sizeSB s = 0)
   \<and> (ledger_ok (chunks s) \<longrightarrow> (sizeSB s = 0) = (ledger_bytes (chunks s) = []))"
proof -
  let ?s = "s\<lparr>chunks := chunks s @ [\<lparr>chunk = c, end' = getCurrentEndOffset s + int (length c),
                                        start = getCurrentEndOffset s\<rparr>]\<rparr>"
  have a: "snd (appendChunk emit c s) = evict ?s"
    by (simp add: appendChunk_def Let_def)
  have "length (chunks (evict ?s)) \<noteq> 0"
    using evict_chunks_nonempty [of ?s] by simp
  with evict_exit [of ?s]
  have 1: "length (chunks (snd (appendChunk emit c s))) = 1
      \<or> \<not> num_less (maxSize (snd (appendChunk emit c s))) (Num (sizeSB (snd (appendChunk emit c s))))"
    unfolding a by linarith
  have 2: "chunk (last (chunks (snd (appendChunk emit c s)))) = c"
    by (simp add: appendChunk_last)
  have 3: "sizeSB s = (if chunks s = [] then 0 else end' (last (chunks s)) - start (hd (chunks s)))"
    by (simp add: sizeSB_def)
  have 5: "(sizeSB s = 0) = (ledger_bytes (chunks s) = [])" if "ledger_ok (chunks s)"
  proof -
    have "(ledger_bytes (chunks s) = []) = (int (length (ledger_bytes (chunks s))) = 0)"
      by simp
    also have "\<dots> = (sizeSB s = 0)"
      using ledger_ok_length [OF that] by (simp add: sizeSB_water)
    finally show ?thesis by simp
  qed
  from 1 2 3 5 show ?thesis by simp
qed

text \<open>
  A three-byte chunk appended under \<^verbatim>\<open>maxSize: 2\<close> stays, alone; the new store has an
  empty, well-formed ledger of size 0.
\<close>

theorem C2_append_size_bound_witness:
  "ledger_ok (chunks (StreamBuffer no_options))
   \<and> chunks (StreamBuffer no_options) = []
   \<and> sizeSB (StreamBuffer no_options) = 0
   \<and> ledger_bytes (chunks (StreamBuffer no_options)) = []
   \<and> length (chunks (snd (appendChunk no_listeners [1, 2, 3] (StreamBuffer \<lparr> opt_maxSize = Some (Num 2), opt_maxBufferSize = None \<rparr>)))) = 1
   \<and> chunk (last (chunks (snd (appendChunk no_listeners [1, 2, 3] (StreamBuffer \<lparr> opt_maxSize = Some (Num 2), opt_maxBufferSize = None \<rparr>))))) = [1, 2, 3]"
proof -
  have h1: "ledger_ok (chunks (StreamBuffer no_options))"
    and h2: "chunks (StreamBuffer no_options) = []"
    by (simp_all add: StreamBuffer_def)
  have h3: "length (chunks (snd (appendChunk no_listeners [1, 2, 3] (StreamBuffer \<lparr> opt_maxSize = Some (Num 2), opt_maxBufferSize = None \<rparr>)))) = 1"
    by code_simp
  show ?thesis
    using C2_append_size_bound [of no_listeners "[1, 2, 3]" "StreamBuffer \<lparr> opt_maxSize = Some (Num 2), opt_maxBufferSize = None \<rparr>"]
      C2_append_size_bound [of no_listeners "[]" "StreamBuffer no_options"] h1 h2 h3
    by (simp add: ledger_bytes_def)
qed

text \<open>
  Against the claim as it stands: a zero-length chunk written to a new store leaves a
  ledger of one entry whose \<^verbatim>\<open>size()\<close> is 0.
\<close>

theorem C2_size_zero_counterexample:
  "chunks (snd (appendChunk no_listeners [] (StreamBuffer no_options))) = [\<lparr> chunk = [], end' = 0, start = 0 \<rparr>]
   \<and> sizeSB (snd (appendChunk no_listeners [] (StreamBuffer no_options))) = 0"
  by code_simp

section \<open>Locating a chunk\<close>

text \<open>
  Claim C3. Let the stream be in the state Ended (ended and not destroyed), with a
  well-formed ledger, as every store built by the operations has. A locate at the final
  end offset whose requested end is unbounded or that same offset returns the empty
  buffer, and does not fail. A locate at or beyond the final end offset whose requested
  end is bounded and differs from the offset fails with the out-of-bounds error.
\<close>

theorem C3_locate_at_end:
  assumes "ended s" and "\<not> destroyed s" and "ledger_ok (chunks s)"
  shows "(endp = Infinity \<or> endp = Num (getCurrentEndOffset s) \<longrightarrow>
            getNextChunk s (Some (getCurrentEndOffset s)) endp = Inr (Some []))
       \<and> (getCurrentEndOffset s \<le> off \<and> endp \<noteq> Infinity \<and> endp \<noteq> Num off \<longrightarrow>
            getNextChunk s (Some off) endp = Inl OutOfBounds)"
proof -
  have none: "find (\<lambda>c. k < end' c) (chunks s) = None" if "getCurrentEndOffset s \<le> k" for k
  proof (cases "chunks s = []")
    case True
    then show ?thesis by simp
  next
    case False
    with that assms(3) show ?thesis
      by (simp add: find_None_beyond getCurrentEndOffset_def)
  qed
  show ?thesis
    using assms none by (auto simp: getNextChunk_def)
qed

text \<open>The theorem at the ended test stream of 16 bytes.\<close>

theorem C3_locate_at_end_witness:
  "getNextChunk (createTestStream no_options) (Some 16) Infinity = Inr (Some [])
   \<and> getNextChunk (createTestStream no_options) (Some 16) (Num 16) = Inr (Some [])
   \<and> getNextChunk (createTestStream no_options) (Some 16) (Num 17) = Inl OutOfBounds
   \<and> getNextChunk (createTestStream no_options) (Some 20) (Num 21) = Inl OutOfBounds"
proof -
  let ?s = "createTestStream no_options"
  have h: "ended ?s" "\<not> destroyed ?s" "ledger_ok (chunks ?s)"
    by code_simp+
  have e: "getCurrentEndOffset ?s = 16"
    by code_simp
  show ?thesis
    using C3_locate_at_end [OF h, of Infinity 16] C3_locate_at_end [OF h, of "Num 16" 16]
      C3_locate_at_end [OF h, of "Num 17" 16] C3_locate_at_end [OF h, of "Num 21" 20] e
    by simp
qed

text \<open>
  Claim C4. On a store that is not destroyed and whose ledger is well formed and not
  empty, a locate at any offset below the start of the first retained chunk fails with
  the chunk-gone error, whatever the requested end. With \<^verbatim>\<open>maxSize: 12\<close> and any
  \<^verbatim>\<open>maxBufferSize\<close>, after four chunks of four bytes each and the end of the stream,
  \<^verbatim>\<open>getBuffer()\<close> from the initial seek 0 fails with that error: the first chunk was
  evicted by the fourth append.
\<close>

theorem C4_evicted_read_fails:
  "(\<not> destroyed s \<and> ledger_ok (chunks s) \<and> chunks s \<noteq> []
      \<and> ToNumber offset < start (hd (chunks s))
      \<longrightarrow> getNextChunk s offset endp = Inl ChunkEvicted)
   \<and> (length c1 = 4 \<and> length c2 = 4 \<and> length c3 = 4 \<and> length c4 = 4
      \<longrightarrow> snd (getBuffer None None
                 (run [Write c1, Write c2, Write c3, Write c4, Final]
                    (StreamBuffer \<lparr> opt_maxSize = Some (Num 12), opt_maxBufferSize = cap \<rparr>)))
            = Some (Threw ChunkEvicted))"
proof (intro conjI impI)
  assume "\<not> destroyed s \<and> ledger_ok (chunks s) \<and> chunks s \<noteq> []
      \<and> ToNumber offset < start (hd (chunks s))"
  then show "getNextChunk s offset endp = Inl ChunkEvicted"
    by (simp add: locate_evicted)
next
  assume a: "length c1 = 4 \<and> length c2 = 4 \<and> length c3 = 4 \<and> length c4 = 4"
  let ?s = "run [Write c1, Write c2, Write c3, Write c4, Final]
                    (StreamBuffer \<lparr> opt_maxSize = Some (Num 12), opt_maxBufferSize = cap \<rparr>)"
  have s: "?s = \<lparr> chunks = [\<lparr> chunk = c2, end' = 8, start = 4 \<rparr>, \<lparr> chunk = c3, end' = 12, start = 8 \<rparr>,
                       \<lparr> chunk = c4, end' = 16, start = 12 \<rparr>],
             ended = True, destroyed = False, error = Null, seekv = Some 0,
             maxSize = Num 12, maxBufferSize = or_Infinity cap \<rparr>"
    using a by (simp add: four_chunks_window_12)
  show "snd (getBuffer None None ?s) = Some (Threw ChunkEvicted)"
    unfolding s
    by (simp add: getBuffer_def getBuffer_read_def seek_def Let_def getBuffer_loop.simps
        getNextChunk_def getCurrentEndOffset_def)
qed

text \<open>The theorem at the test stream built with \<^verbatim>\<open>maxSize: 12\<close>.\<close>

theorem C4_evicted_read_fails_witness:
  "getNextChunk createTestStreamWithDroppedChunk (Some 3) (Num 5) = Inl ChunkEvicted
   \<and> snd (getBuffer None None createTestStreamWithDroppedChunk) = Some (Threw ChunkEvicted)"
proof -
  let ?s = createTestStreamWithDroppedChunk
  have h: "\<not> destroyed ?s \<and> ledger_ok (chunks ?s) \<and> chunks ?s \<noteq> []
      \<and> ToNumber (Some 3) < start (hd (chunks ?s))"
    by code_simp
  have c: "run [Write [0xBE, 0xEF, 0xFE, 0xED], Write [0x01, 0x23, 0x45, 0x67],
                 Write [0x89, 0xAB, 0xCD, 0xEF], Write [0x11, 0x23, 0x32, 0x11], Final]
                 (StreamBuffer \<lparr> opt_maxSize = Some (Num 12), opt_maxBufferSize = None \<rparr>) = ?s"
    by (simp add: createTestStreamWithDroppedChunk_def createTestStream_def
        createOpenTestStream_def run_def)
  show ?thesis
    using C4_evicted_read_fails [of ?s "Some 3" "Num 5" "[0xBE, 0xEF, 0xFE, 0xED]"
        "[0x01, 0x23, 0x45, 0x67]" "[0x89, 0xAB, 0xCD, 0xEF]" "[0x11, 0x23, 0x32, 0x11]" None] h
    by (simp add: c)
qed

text \<open>
  Claim C5. Right after \<^verbatim>\<open>destroy(error)\<close> the ledger is empty, and a locate fails with
  the error given, or with the default error when none was given, for every offset and
  requested end. The same holds after any later writes, end and seek calls, although
  writes fill the ledger again; and after any later calls at all, further destroys among
  them, a locate fails with the error the store holds then.
\<close>

theorem C5_destroyed_locate:
  "chunks (snd (destroy err s)) = []
   \<and> getNextChunk (snd (destroy err s)) offset endp
       = Inl (if err = Null then StreamDestroyed else err)
   \<and> (\<forall>ops. (\<forall>x \<in> set ops. \<not> is_Destroy x) \<longrightarrow>
         getNextChunk (run ops (snd (destroy err s))) offset endp
           = Inl (if err = Null then StreamDestroyed else err))
   \<and> (\<forall>ops. getNextChunk (run ops (snd (destroy err s))) offset endp
           = Inl (error (run ops (snd (destroy err s)))))"
proof -
  let ?d = "snd (destroy err s)"
  let ?e = "if err = Null then StreamDestroyed else err"
  have d: "destroyed ?d" and e: "error ?d = ?e"
    by (simp_all add: destroy_def Let_def)
  have 1: "chunks ?d = []"
    by (simp add: destroy_def Let_def)
  have 2: "getNextChunk ?d offset endp = Inl ?e"
    using d e by (simp add: getNextChunk_def)
  have 3: "getNextChunk (run ops ?d) offset endp = Inl ?e"
    if "\<forall>x \<in> set ops. \<not> is_Destroy x" for ops
  proof -
    from d that have "destroyed (run ops ?d)" and "error (run ops ?d) = error ?d"
      using run_destroyed [of ?d ops] by auto
    with e show ?thesis
      by (simp add: getNextChunk_def)
  qed
  have 4: "getNextChunk (run ops ?d) offset endp = Inl (error (run ops ?d))" for ops
    using run_stays_destroyed [OF d, of ops] by (simp add: getNextChunk_def)
  from 1 2 3 4 show ?thesis
    by blast
qed

text \<open>
  The open test stream destroyed with an error of the caller's, and destroyed without one
  and then written to, ended and sought.
\<close>

theorem C5_destroyed_locate_witness:
  "chunks (snd (destroy (Error ''boom'') (createOpenTestStream no_options))) = []
   \<and> getNextChunk (snd (destroy (Error ''boom'') (createOpenTestStream no_options)))
         (Some 0) Infinity
       = Inl (Error ''boom'')
   \<and> getNextChunk (run [Write [7], Final, Seek None]
                      (snd (destroy Null (createOpenTestStream no_options)))) (Some 0) (Num 1)
       = Inl StreamDestroyed"
proof -
  have h: "\<forall>x \<in> set [Write [7], Final, Seek None]. \<not> is_Destroy x"
    by simp
  have "chunks (snd (destroy (Error ''boom'') (createOpenTestStream no_options))) = []
     \<and> getNextChunk (snd (destroy (Error ''boom'') (createOpenTestStream no_options)))
         (Some 0) Infinity = Inl (if Error ''boom'' = Null then StreamDestroyed else Error ''boom'')"
    using C5_destroyed_locate [of "Error ''boom''" "createOpenTestStream no_options" "Some 0"
        Infinity]
    by blast
  then have a: "chunks (snd (destroy (Error ''boom'') (createOpenTestStream no_options))) = []
     \<and> getNextChunk (snd (destroy (Error ''boom'') (createOpenTestStream no_options)))
         (Some 0) Infinity = Inl (Error ''boom'')"
    by simp
  have "\<forall>ops. (\<forall>x \<in> set ops. \<not> is_Destroy x) \<longrightarrow>
         getNextChunk (run ops (snd (destroy Null (createOpenTestStream no_options))))
           (Some 0) (Num 1) = Inl (if Null = Null then StreamDestroyed else Null)"
    using C5_destroyed_locate [of Null "createOpenTestStream no_options" "Some 0" "Num 1"]
    by blast
  with h have "getNextChunk (run [Write [7], Final, Seek None]
                      (snd (destroy Null (createOpenTestStream no_options)))) (Some 0) (Num 1)
       = Inl (if Null = Null then StreamDestroyed else Null)"
    by blast
  then have "getNextChunk (run [Write [7], Final, Seek None]
                      (snd (destroy Null (createOpenTestStream no_options)))) (Some 0) (Num 1)
       = Inl StreamDestroyed"
    by simp
  with a show ?thesis
    by blast
qed

section \<open>Bulk reads and the cap\<close>



section \<open>The shared seek\<close>

text \<open>
  Claim C7. Let a read, by \<^verbatim>\<open>getBuffer\<close> or \<^verbatim>\<open>getStream\<close>, have a concrete offset: the
  one passed, or the seek when none is passed and the seek is not \<^verbatim>\<open>null\<close>; and let
  the offset, a finite length and their sum be safe integers, so that the sum the code
  forms is the sum of the integers. In the store the call leaves behind when it returns,
  throws or first suspends, the seek is the target end of the read: offset plus length
  when that is finite, and for an unbounded read \<^verbatim>\<open>null\<close> on a stream not yet ended and
  the current end offset on an ended one. So on an ended stream of 16 bytes with seek 0,
  \<^verbatim>\<open>getBuffer(8)\<close> returns the bytes of the range from 0 to 8, \<^verbatim>\<open>seek()\<close> then reads 8,
  and a following \<^verbatim>\<open>getBuffer(2)\<close> returns the bytes of the range from 8 to 10.
\<close>

theorem C7_read_moves_seek:
  "((offset = Some k \<or> offset = None \<and> seekv s = Some k) \<and> isSafeInteger k
      \<and> (\<forall>l. len = Some (Num l) \<longrightarrow> isSafeInteger l \<and> isSafeInteger (k + l)) \<longrightarrow>
      seekv (fst (getBuffer len offset s))
        = (case num_add (Num k) (case len of None \<Rightarrow> Infinity | Some l \<Rightarrow> l) of
             Num e \<Rightarrow> Some e
           | Infinity \<Rightarrow> if ended s then Some (getCurrentEndOffset s) else None)
      \<and> seekv (fst (getStream len offset s))
        = (case num_add (Num k) (case len of None \<Rightarrow> Infinity | Some l \<Rightarrow> l) of
             Num e \<Rightarrow> Some e
           | Infinity \<Rightarrow> if ended s then Some (getCurrentEndOffset s) else None))
   \<and> (ended s \<and> \<not> destroyed s \<and> ledger_ok (chunks s) \<and> lowWater (chunks s) = 0
        \<and> highWater (chunks s) = 16 \<and> seekv s = Some 0
        \<and> \<not> num_less (maxBufferSize s) (Num 8) \<longrightarrow>
      snd (getBuffer (Some (Num 8)) None s) = Some (Returned (byte_range (chunks s) 0 8))
      \<and> fst (seek None (fst (getBuffer (Some (Num 8)) None s))) = Some 8
      \<and> snd (getBuffer (Some (Num 2)) None (fst (getBuffer (Some (Num 8)) None s)))
          = Some (Returned (byte_range (chunks s) 8 10)))"
proof (intro conjI impI)
  assume "(offset = Some k \<or> offset = None \<and> seekv s = Some k) \<and> isSafeInteger k
      \<and> (\<forall>l. len = Some (Num l) \<longrightarrow> isSafeInteger l \<and> isSafeInteger (k + l))"
  then have r: "offset = Some k \<or> offset = None \<and> seekv s = Some k"
    by blast
  show "seekv (fst (getBuffer len offset s))
        = (case num_add (Num k) (case len of None \<Rightarrow> Infinity | Some l \<Rightarrow> l) of
             Num e \<Rightarrow> Some e
           | Infinity \<Rightarrow> if ended s then Some (getCurrentEndOffset s) else None)"
    by (simp add: getBuffer_resolved [OF r] getBuffer_read_def Let_def seek_seekv)
  show "seekv (fst (getStream len offset s))
        = (case num_add (Num k) (case len of None \<Rightarrow> Infinity | Some l \<Rightarrow> l) of
             Num e \<Rightarrow> Some e
           | Infinity \<Rightarrow> if ended s then Some (getCurrentEndOffset s) else None)"
    using r by (auto simp: getStream_def Let_def seek_get seek_seekv)
next
  assume a: "ended s \<and> \<not> destroyed s \<and> ledger_ok (chunks s) \<and> lowWater (chunks s) = 0
        \<and> highWater (chunks s) = 16 \<and> seekv s = Some 0
        \<and> \<not> num_less (maxBufferSize s) (Num 8)"
  have g1: "getBuffer (Some (Num 8)) None s
           = (s\<lparr>seekv := Some (0 + 8)\<rparr>, Some (Returned (byte_range (chunks s) 0 (0 + 8))))"
    by (rule getBuffer_returns) (use a in simp_all)
  let ?s1 = "s\<lparr>seekv := Some 8\<rparr>"
  have cap2: "\<not> num_less (maxBufferSize ?s1) (Num 2)"
    using a num_less_mono [of "maxBufferSize s" 8 2] by simp
  have g2: "getBuffer (Some (Num 2)) None ?s1
           = (?s1\<lparr>seekv := Some (8 + 2)\<rparr>, Some (Returned (byte_range (chunks ?s1) 8 (8 + 2))))"
    by (rule getBuffer_returns) (use a cap2 in simp_all)
  show "snd (getBuffer (Some (Num 8)) None s) = Some (Returned (byte_range (chunks s) 0 8))"
    using g1 by simp
  show "fst (seek None (fst (getBuffer (Some (Num 8)) None s))) = Some 8"
    using g1 by (simp add: seek_get)
  show "snd (getBuffer (Some (Num 2)) None (fst (getBuffer (Some (Num 8)) None s)))
          = Some (Returned (byte_range (chunks s) 8 10))"
    using g1 g2 by simp
qed

text \<open>
  The theorem at the test streams: the two reads on the ended one, an unbounded read on
  the open one, which suspends with the seek already \<^verbatim>\<open>null\<close>, and a stream read.
\<close>

theorem C7_read_moves_seek_witness:
  "snd (getBuffer (Some (Num 8)) None (createTestStream no_options))
      = Some (Returned [0xBE, 0xEF, 0xFE, 0xED, 0x01, 0x23, 0x45, 0x67])
   \<and> fst (seek None (fst (getBuffer (Some (Num 8)) None (createTestStream no_options)))) = Some 8
   \<and> snd (getBuffer (Some (Num 2)) None
            (fst (getBuffer (Some (Num 8)) None (createTestStream no_options))))
      = Some (Returned [0x89, 0xAB])
   \<and> getBuffer None None (createOpenTestStream no_options)
       = ((createOpenTestStream no_options)\<lparr>seekv := None\<rparr>,
          Some (Suspended (AwaitChunk (Some 0) (Some 16) Infinity
                  [[0xBE, 0xEF, 0xFE, 0xED], [0x01, 0x23, 0x45, 0x67],
                   [0x89, 0xAB, 0xCD, 0xEF], [0x11, 0x23, 0x32, 0x11]])))
   \<and> seekv (fst (getStream (Some (Num 2)) None (createTestStream no_options))) = Some 2"
proof -
  let ?s = "createTestStream no_options"
  let ?t = "createOpenTestStream no_options"
  have h: "ended ?s \<and> \<not> destroyed ?s \<and> ledger_ok (chunks ?s) \<and> lowWater (chunks ?s) = 0
        \<and> highWater (chunks ?s) = 16 \<and> seekv ?s = Some 0
        \<and> \<not> num_less (maxBufferSize ?s) (Num 8)"
    by code_simp
  have b: "byte_range (chunks ?s) 0 8 = [0xBE, 0xEF, 0xFE, 0xED, 0x01, 0x23, 0x45, 0x67]"
    "byte_range (chunks ?s) 8 10 = [0x89, 0xAB]"
    by code_simp+
  have t: "seekv ?t = Some 0" "\<not> ended ?t"
    by code_simp+
  have g: "getBuffer None None ?t
       = (?t\<lparr>seekv := None\<rparr>,
          Some (Suspended (AwaitChunk (Some 0) (Some 16) Infinity
                  [[0xBE, 0xEF, 0xFE, 0xED], [0x01, 0x23, 0x45, 0x67],
                   [0x89, 0xAB, 0xCD, 0xEF], [0x11, 0x23, 0x32, 0x11]])))"
    by code_simp
  have i: "isSafeInteger 0 \<and> isSafeInteger 2 \<and> isSafeInteger (0 + 2)"
    by (simp add: isSafeInteger_def)
  show ?thesis
    using C7_read_moves_seek [of None 0 ?s "Some (Num 2)"] h b g i
    by simp
qed




section \<open>Appending\<close>




section \<open>Reads of no bytes\<close>

text \<open>
  Claim C10. A \<^verbatim>\<open>getBuffer(0, k)\<close> returns the empty buffer on every store and for every
  offset \<open>k\<close>; it sets the seek to \<open>k\<close> and the outcome does not depend on the ledger.
  So it does at offset 2 of the test stream whose first four bytes were evicted, and at
  offset 20 of the ended test stream of 16 bytes, where reads of one byte fail with the
  chunk-gone and the out-of-bounds error.
\<close>

theorem C10_zero_length_read:
  "getBuffer (Some (Num 0)) (Some k) s = (s\<lparr>seekv := Some k\<rparr>, Some (Returned []))
   \<and> snd (getBuffer (Some (Num 0)) (Some 2) createTestStreamWithDroppedChunk) = Some (Returned [])
   \<and> snd (getBuffer (Some (Num 1)) (Some 2) createTestStreamWithDroppedChunk)
       = Some (Threw ChunkEvicted)
   \<and> snd (getBuffer (Some (Num 0)) (Some 20) (createTestStream no_options)) = Some (Returned [])
   \<and> snd (getBuffer (Some (Num 1)) (Some 20) (createTestStream no_options))
       = Some (Threw OutOfBounds)"
proof -
  have g: "getBuffer (Some (Num 0)) (Some k) s = (s\<lparr>seekv := Some k\<rparr>, Some (Returned []))"
    for k s
    by (simp add: getBuffer_def getBuffer_read_def Let_def seek_finite loop_done
        Buffer_concat_def)
  have "snd (getBuffer (Some (Num 1)) (Some 2) createTestStreamWithDroppedChunk)
       = Some (Threw ChunkEvicted)"
    by code_simp
  moreover have "snd (getBuffer (Some (Num 1)) (Some 20) (createTestStream no_options))
       = Some (Threw OutOfBounds)"
    by code_simp
  ultimately show ?thesis
    by (simp add: g)
qed

text \<open>The theorem at a destroyed stream and at a new one.\<close>

theorem C10_zero_length_read_witness:
  "snd (getBuffer (Some (Num 0)) (Some 2) (snd (destroy Null (createOpenTestStream no_options))))
     = Some (Returned [])
   \<and> snd (getBuffer (Some (Num 0)) (Some 99) (StreamBuffer no_options)) = Some (Returned [])"
  using C10_zero_length_read [of 2 "snd (destroy Null (createOpenTestStream no_options))"]
    C10_zero_length_read [of 99 "StreamBuffer no_options"]
  by simp

end
